theory Spec2Isabelle
  imports Complex_Main
begin

section \<open>Numbers, errors and the random stream\<close>

text \<open>
  The sampler of \<^verbatim>\<open>slice.py\<close> computes with Python floats. The model idealises them as
  the real numbers: rounding, infinities and NaN are not represented.

  numpy's global generator is a stream \<open>g\<close> of draws together with the number of draws
  already taken; \<^verbatim>\<open>np.random.uniform()\<close> reads \<open>g n\<close> and moves on to \<open>n + 1\<close>.
\<close>

datatype error = IndexError | ValueError | ZeroDivisionError | RuntimeError string

type_synonym rng = "nat \<Rightarrow> real"

definition uniform :: "rng \<Rightarrow> nat \<Rightarrow> real \<Rightarrow> real \<Rightarrow> real \<times> nat" where
  \<comment> \<open>\<^verbatim>\<open>np.random.uniform(low, high)\<close> is \<^verbatim>\<open>low + (high - low) * random_sample()\<close>.\<close>
  "uniform g n low high = (low + (high - low) * g n, Suc n)"

section \<open>The discretised density\<close>

text \<open>\<^verbatim>\<open>np.argmin\<close>: the index of the first occurrence of the minimum; it raises on an
  empty array.\<close>

fun argmin_scan :: "real list \<Rightarrow> nat \<Rightarrow> nat \<Rightarrow> real \<Rightarrow> nat" where
  "argmin_scan [] i best_i best = best_i"
| "argmin_scan (a # as) i best_i best =
     (if a < best then argmin_scan as (Suc i) i a else argmin_scan as (Suc i) best_i best)"

definition argmin :: "real list \<Rightarrow> error + nat" where
  "argmin as = (case as of [] \<Rightarrow> Inl ValueError | a # rest \<Rightarrow> Inr (argmin_scan rest 1 0 a))"

text \<open>Reading a numpy array at a non-negative index.\<close>

definition item :: "'a list \<Rightarrow> nat \<Rightarrow> error + 'a" where
  "item xs i = (if i < length xs then Inr (xs ! i) else Inl IndexError)"

text \<open>\<^verbatim>\<open>Elliptical.__fx\<close>: the density at the grid point nearest to \<open>x\<close>.\<close>

definition fx_of :: "real list \<Rightarrow> real list \<Rightarrow> real \<Rightarrow> error + real" where
  "fx_of Xs Ys x =
     (case argmin (map (\<lambda>a. \<bar>a - x\<bar>) Xs) of
        Inl e \<Rightarrow> Inl e
      | Inr ind \<Rightarrow> item Ys ind)"

section \<open>Interval search\<close>

text \<open>
  Both searches write every intermediate interval to \<^verbatim>\<open>self.slice\<close> before refreshing the
  display. The model collects these writes, in order, in a list; the figure and the
  \<^verbatim>\<open>time.sleep\<close> between frames are not represented.
\<close>

subsection \<open>Stepping out\<close>

text \<open>The first loop of \<^verbatim>\<open>Elliptical.stepout\<close>: \<open>l\<close> moves left while the budget \<open>j\<close> lasts
  and the density at \<open>l\<close> is above \<open>y\<close>.\<close>

function stepout_left ::
  "real list \<Rightarrow> real list \<Rightarrow> real \<Rightarrow> real \<Rightarrow> real \<Rightarrow> real \<Rightarrow> int \<Rightarrow> (real \<times> real) list
     \<Rightarrow> error + (real \<times> int \<times> (real \<times> real) list)" where
  "stepout_left Xs Ys y w r l j tr =
     (if j > 0 then
        (case fx_of Xs Ys l of
           Inl e \<Rightarrow> Inl e
         | Inr fl \<Rightarrow>
             if y < fl then stepout_left Xs Ys y w r (l - w) (j - 1) (tr @ [(l - w, r)])
             else Inr (l, j, tr))
      else Inr (l, j, tr))"
  by pat_completeness auto
termination
  by (relation "measure (\<lambda>(Xs, Ys, y, w, r, l, j, tr). nat j)") auto

declare stepout_left.simps [simp del]

text \<open>The second loop: \<open>r\<close> moves right while the budget \<open>k\<close> lasts.\<close>

function stepout_right ::
  "real list \<Rightarrow> real list \<Rightarrow> real \<Rightarrow> real \<Rightarrow> real \<Rightarrow> real \<Rightarrow> int \<Rightarrow> (real \<times> real) list
     \<Rightarrow> error + (real \<times> int \<times> (real \<times> real) list)" where
  "stepout_right Xs Ys y w l r k tr =
     (if k > 0 then
        (case fx_of Xs Ys r of
           Inl e \<Rightarrow> Inl e
         | Inr fr \<Rightarrow>
             if y < fr then stepout_right Xs Ys y w l (r + w) (k - 1) (tr @ [(l, r + w)])
             else Inr (r, k, tr))
      else Inr (r, k, tr))"
  by pat_completeness auto
termination
  by (relation "measure (\<lambda>(Xs, Ys, y, w, l, r, k, tr). nat k)") auto

declare stepout_right.simps [simp del]

text \<open>
  \<^verbatim>\<open>Elliptical.stepout(x, y, w, m)\<close>. The result is the returned pair, the intervals written
  by the first loop, the intervals written by the second loop, and the new position in
  the random stream. The writes to \<^verbatim>\<open>self.slice\<close> are the first list followed by the second.
\<close>

definition stepout ::
  "real list \<Rightarrow> real list \<Rightarrow> rng \<Rightarrow> nat \<Rightarrow> real \<Rightarrow> real \<Rightarrow> real \<Rightarrow> int
     \<Rightarrow> error + ((real \<times> real) \<times> (real \<times> real) list \<times> (real \<times> real) list \<times> nat)" where
  "stepout Xs Ys g n x y w m =
     (let (u, n1) = uniform g n 0 1;
          l = x - w * u;
          r = l + w;
          (v, n2) = uniform g n1 0 1;
          j = \<lfloor>of_int m * v\<rfloor>;
          k = m - 1 - j
      in case stepout_left Xs Ys y w r l j [] of
           Inl e \<Rightarrow> Inl e
         | Inr (l', j', ltr) \<Rightarrow>
             (case stepout_right Xs Ys y w l' r k [] of
                Inl e \<Rightarrow> Inl e
              | Inr (r', k', rtr) \<Rightarrow> Inr ((l', r'), ltr, rtr, n2)))"

subsection \<open>Doubling\<close>

text \<open>The loop test of \<^verbatim>\<open>Elliptical.double\<close>, with Python's short-circuit order.\<close>

definition double_cond :: "real list \<Rightarrow> real list \<Rightarrow> real \<Rightarrow> int \<Rightarrow> real \<Rightarrow> real \<Rightarrow> error + bool" where
  "double_cond Xs Ys y k l r =
     (if k > 0 then
        (case fx_of Xs Ys l of
           Inl e \<Rightarrow> Inl e
         | Inr fl \<Rightarrow>
             if y < fl then Inr True
             else (case fx_of Xs Ys r of Inl e \<Rightarrow> Inl e | Inr fr \<Rightarrow> Inr (y < fr)))
      else Inr False)"

text \<open>One pass through the loop body: the interval after the pass. The body never
  changes \<open>k\<close>.\<close>

definition double_body :: "real \<Rightarrow> real \<Rightarrow> real \<Rightarrow> real \<times> real" where
  "double_body v l r =
     (let width = r - l in if v < 0.5 then (l - width, r) else (l, r + width))"

text \<open>The loop itself may run forever; \<open>None\<close> stands for a call that does not return.\<close>

partial_function (option) double_loop ::
  "real list \<Rightarrow> real list \<Rightarrow> real \<Rightarrow> rng \<Rightarrow> int \<Rightarrow> real \<Rightarrow> real \<Rightarrow> nat \<Rightarrow> (real \<times> real) list
     \<Rightarrow> (error + (real \<times> real) \<times> (real \<times> real) list \<times> nat) option" where
  "double_loop Xs Ys y g k l r n tr =
     (case double_cond Xs Ys y k l r of
        Inl e \<Rightarrow> Some (Inl e)
      | Inr continue \<Rightarrow>
          if continue then
            (case uniform g n 0 1 of
               (v, n') \<Rightarrow>
                 (case double_body v l r of
                    (l', r') \<Rightarrow> double_loop Xs Ys y g k l' r' n' (tr @ [(l', r')])))
          else Some (Inr ((l, r), tr, n)))"

text \<open>\<^verbatim>\<open>Elliptical.double(x, y, w, p)\<close>: the returned pair, the intervals written to
  \<^verbatim>\<open>self.slice\<close>, and the new position in the random stream.\<close>

definition double ::
  "real list \<Rightarrow> real list \<Rightarrow> rng \<Rightarrow> nat \<Rightarrow> real \<Rightarrow> real \<Rightarrow> real \<Rightarrow> int
     \<Rightarrow> (error + (real \<times> real) \<times> (real \<times> real) list \<times> nat) option" where
  "double Xs Ys g n x y w p =
     (let (u, n1) = uniform g n 0 1;
          l = x - w * u;
          r = l + w;
          k = p
      in double_loop Xs Ys y g k l r n1 [])"

text \<open>
  What an observer of \<^verbatim>\<open>self.slice\<close> has seen once the loop of \<^verbatim>\<open>double\<close> has been through
  at most \<open>fuel\<close> passes, whether or not the loop ever stops: the intervals written so
  far (none if the loop test raised).
\<close>

fun double_writes ::
  "nat \<Rightarrow> real list \<Rightarrow> real list \<Rightarrow> real \<Rightarrow> rng \<Rightarrow> int \<Rightarrow> real \<Rightarrow> real \<Rightarrow> nat \<Rightarrow> (real \<times> real) list" where
  "double_writes 0 Xs Ys y g k l r n = []"
| "double_writes (Suc fuel) Xs Ys y g k l r n =
     (case double_cond Xs Ys y k l r of
        Inl e \<Rightarrow> []
      | Inr continue \<Rightarrow>
          if continue then
            (case uniform g n 0 1 of
               (v, n') \<Rightarrow>
                 (case double_body v l r of
                    (l', r') \<Rightarrow> (l', r') # double_writes fuel Xs Ys y g k l' r' n'))
          else [])"

section \<open>Region extraction\<close>

text \<open>\<^verbatim>\<open>np.diff\<close> of a one-dimensional array: the differences of neighbours.\<close>

fun np_diff :: "real list \<Rightarrow> real list" where
  "np_diff (a # b # rest) = (b - a) # np_diff (b # rest)"
| "np_diff _ = []"

text \<open>
  The loop \<^verbatim>\<open>for i in range(1, len(diff)): if diff[i-1] != 0: diff[i] = 0\<close> of
  \<^verbatim>\<open>__find_patches\<close>. It updates \<open>diff\<close> in place, so the test at \<open>i\<close> reads the entry
  that the pass at \<open>i - 1\<close> may have just cleared.
\<close>

function collapse_loop :: "nat \<Rightarrow> real list \<Rightarrow> real list" where
  "collapse_loop i d =
     (if i < length d
      then collapse_loop (Suc i) (if d ! (i - 1) \<noteq> 0 then d[i := 0] else d)
      else d)"
  by pat_completeness auto
termination
  by (relation "measure (\<lambda>(i, d). length d - i)") auto

declare collapse_loop.simps [simp del]

definition collapse :: "real list \<Rightarrow> real list" where
  "collapse d = collapse_loop 1 d"

text \<open>The sign-difference array after the loop, as \<^verbatim>\<open>__find_patches\<close> computes it from the
  density values and the threshold.\<close>

definition boundary_markers :: "real list \<Rightarrow> real \<Rightarrow> real list" where
  "boundary_markers Ys threshold = collapse (np_diff (map (\<lambda>v. sgn (v - threshold)) Ys))"

text \<open>Reading several entries; the first read out of range raises.\<close>

fun items :: "'a list \<Rightarrow> nat list \<Rightarrow> error + 'a list" where
  "items xs [] = Inr []"
| "items xs (i # is) =
     (case item xs i of
        Inl e \<Rightarrow> Inl e
      | Inr v \<Rightarrow> (case items xs is of Inl e \<Rightarrow> Inl e | Inr vs \<Rightarrow> Inr (v # vs)))"

text \<open>
  The loop over neighbouring intersections: for each pair \<open>(start, end)\<close> whose midpoint
  is at or above the threshold, one patch: the extended grid over
  \<^verbatim>\<open>range(end, start, -1)\<close> at the threshold, then the grid over \<^verbatim>\<open>range(start, end)\<close> with
  the density values.
\<close>

fun patch_loop ::
  "real list \<Rightarrow> real list \<Rightarrow> real \<Rightarrow> nat list \<Rightarrow> error + (real list list \<times> real list list)" where
  "patch_loop X' Ys threshold (start # end # rest) =
     (let midpoint = (start + end) div 2 in
      case item Ys midpoint of
        Inl e \<Rightarrow> Inl e
      | Inr ym \<Rightarrow>
          if ym \<ge> threshold then
            (case items X' (rev [Suc start..<Suc end]) of
               Inl e \<Rightarrow> Inl e
             | Inr bottom \<Rightarrow>
                 (case items X' [start..<end] of
                    Inl e \<Rightarrow> Inl e
                  | Inr top_x \<Rightarrow>
                      (case items Ys [start..<end] of
                         Inl e \<Rightarrow> Inl e
                       | Inr top_y \<Rightarrow>
                           (case patch_loop X' Ys threshold (end # rest) of
                              Inl e \<Rightarrow> Inl e
                            | Inr (pxs, pys) \<Rightarrow>
                                Inr ((bottom @ top_x) # pxs,
                                     (replicate (length bottom) threshold @ top_y) # pys)))))
          else patch_loop X' Ys threshold (end # rest))"
| "patch_loop X' Ys threshold _ = Inr ([], [])"

text \<open>\<^verbatim>\<open>Elliptical.__find_patches(X, Y, threshold)\<close>: the patch coordinates, or the
  \<^verbatim>\<open>IndexError\<close> of \<^verbatim>\<open>X[0]\<close> on an empty grid.\<close>

definition find_patches ::
  "real list \<Rightarrow> real list \<Rightarrow> real \<Rightarrow> error + (real list list \<times> real list list)" where
  "find_patches Xs Ys threshold =
     (let diff = boundary_markers Ys threshold;
          intersections = 0 # filter (\<lambda>i. diff ! i \<noteq> 0) [0..<length diff] @ [length Xs]
      in case Xs of
           [] \<Rightarrow> Inl IndexError
         | x0 # _ \<Rightarrow> patch_loop (x0 # Xs @ [last Xs]) Ys threshold intersections)"

section \<open>The sampler\<close>

datatype strategy = Stepout | Double

record sampler =
  mode :: int
  num_modes :: int
  update_fn :: strategy
  X :: "real list"
  Y :: "real list"
  patch_xs :: "real list list"
  patch_ys :: "real list list"
  slice :: "real \<times> real"
  curr_x :: real
  fx :: real
  curr_y :: real
  horizontal :: real

text \<open>
  \<^verbatim>\<open>np.arange(start, stop, step)\<close> on floats: \<open>\<lceil>(stop - start) / step\<rceil>\<close> values
  \<open>start + i * step\<close>, none when that count is not positive. A zero step raises (as
  \<^verbatim>\<open>ZeroDivisionError\<close> or \<^verbatim>\<open>ValueError\<close>, depending on the numpy version; the model
  names the first).
\<close>

definition arange :: "real \<Rightarrow> real \<Rightarrow> real \<Rightarrow> error + real list" where
  "arange start stop step =
     (if step = 0 then Inl ZeroDivisionError
      else Inr (map (\<lambda>i. start + real i * step) [0..<nat \<lceil>(stop - start) / step\<rceil>]))"

text \<open>\<^verbatim>\<open>scipy.stats.norm.pdf(x, loc, scale)\<close> and the density that \<^verbatim>\<open>__init__\<close> tabulates.\<close>

definition norm_pdf :: "real \<Rightarrow> real \<Rightarrow> real \<Rightarrow> real" where
  "norm_pdf x loc scale = exp (- (((x - loc) / scale)\<^sup>2) / 2) / (scale * sqrt (2 * pi))"

definition density :: "real \<Rightarrow> real" where
  "density x = 1.75 * norm_pdf x (-3) 1.75 + 0.6 * norm_pdf x 0.75 0.5 + norm_pdf x 3 1"

text \<open>
  \<^verbatim>\<open>Elliptical.__init__\<close>, with the tabulated function as a parameter \<open>f\<close>. The figure that
  the last line of \<^verbatim>\<open>__init__\<close> builds belongs to the display and is not represented.
\<close>

definition init_with :: "(real \<Rightarrow> real) \<Rightarrow> real \<Rightarrow> real \<Rightarrow> real \<Rightarrow> error + sampler" where
  "init_with f x_low x_high x_step =
     (case arange x_low x_high x_step of
        Inl e \<Rightarrow> Inl e
      | Inr Xs \<Rightarrow>
          (let Ys = map f Xs in
           case find_patches Xs Ys 0 of
             Inl e \<Rightarrow> Inl e
           | Inr (pxs, pys) \<Rightarrow>
               Inr \<lparr> mode = -1, num_modes = 5, update_fn = Stepout, X = Xs, Y = Ys,
                     patch_xs = pxs, patch_ys = pys, slice = (-1, -1), curr_x = -1,
                     fx = -1, curr_y = -1, horizontal = -1 \<rparr>))"

definition Elliptical :: "real \<Rightarrow> real \<Rightarrow> real \<Rightarrow> error + sampler" where
  "Elliptical x_low x_high x_step = init_with density x_low x_high x_step"

text \<open>\<^verbatim>\<open>Elliptical.__sample_x\<close>.\<close>

definition sample_x :: "rng \<Rightarrow> sampler \<Rightarrow> nat \<Rightarrow> real \<times> nat" where
  "sample_x g s n = uniform g n (fst (slice s)) (snd (slice s))"

text \<open>\<^verbatim>\<open>str\<close> of an integer, for the message of \<^verbatim>\<open>change_update_fn\<close>.\<close>

fun str_nat :: "nat \<Rightarrow> string" where
  "str_nat n = (if n < 10 then [''0123456789'' ! n]
                else str_nat (n div 10) @ [''0123456789'' ! (n mod 10)])"

declare str_nat.simps [simp del]

definition str_int :: "int \<Rightarrow> string" where
  "str_int i = (if i < 0 then CHR ''-'' # str_nat (nat (- i)) else str_nat (nat i))"

text \<open>\<^verbatim>\<open>Elliptical.change_update_fn\<close>: what the call raises, if anything, and the sampler
  after the call.\<close>

definition change_update_fn :: "int \<Rightarrow> sampler \<Rightarrow> (error + unit) \<times> sampler" where
  "change_update_fn fn s =
     (if fn = 0 then (Inr (), s\<lparr>update_fn := Stepout\<rparr>)
      else if fn = 1 then (Inr (), s\<lparr>update_fn := Double\<rparr>)
      else (Inl (RuntimeError (str_int fn @ '' not an update function'')), s))"

text \<open>
  The rejection loop of mode 0: \<^verbatim>\<open>while self.curr_y > self.__fx(self.curr_x)\<close>, drawing a
  new \<open>curr_x\<close> each time. It may run forever.
\<close>

partial_function (option) reject_loop ::
  "rng \<Rightarrow> sampler \<Rightarrow> nat \<Rightarrow> (error + sampler \<times> nat) option" where
  "reject_loop g s n =
     (case fx_of (X s) (Y s) (curr_x s) of
        Inl e \<Rightarrow> Some (Inl e)
      | Inr v \<Rightarrow>
          if curr_y s > v then
            (case sample_x g s n of (x, n') \<Rightarrow> reject_loop g (s\<lparr>curr_x := x\<rparr>) n')
          else Some (Inr (s, n)))"

text \<open>\<^verbatim>\<open>self.update_fn(self.curr_x, self.curr_y)\<close>: the selected search with its default
  parameters.\<close>

definition update_fn_call ::
  "rng \<Rightarrow> sampler \<Rightarrow> nat \<Rightarrow> (error + (real \<times> real) \<times> nat) option" where
  "update_fn_call g s n =
     (case update_fn s of
        Stepout \<Rightarrow>
          (case stepout (X s) (Y s) g n (curr_x s) (curr_y s) 1 40 of
             Inl e \<Rightarrow> Some (Inl e)
           | Inr (lr, ltr, rtr, n') \<Rightarrow> Some (Inr (lr, n')))
      | Double \<Rightarrow>
          (case double (X s) (Y s) g n (curr_x s) (curr_y s) 0.25 5 of
             None \<Rightarrow> None
           | Some (Inl e) \<Rightarrow> Some (Inl e)
           | Some (Inr (lr, tr, n')) \<Rightarrow> Some (Inr (lr, n'))))"

text \<open>
  \<^verbatim>\<open>Elliptical.next_step\<close>: the sampler and the position in the random stream after the
  call; \<open>None\<close> when the call does not return. The closing \<^verbatim>\<open>__refresh\<close> only redraws.
\<close>

definition next_step :: "rng \<Rightarrow> sampler \<Rightarrow> nat \<Rightarrow> (error + sampler \<times> nat) option" where
  "next_step g s0 n =
     (let s = s0\<lparr>mode := (mode s0 + 1) mod num_modes s0\<rparr> in
      if mode s = 0 then
        (case sample_x g s n of
           (x, n1) \<Rightarrow>
             (case reject_loop g (s\<lparr>curr_x := x\<rparr>) n1 of
                None \<Rightarrow> None
              | Some (Inl e) \<Rightarrow> Some (Inl e)
              | Some (Inr (s', n2)) \<Rightarrow>
                  Some (Inr (s'\<lparr>horizontal := -1, fx := -1, curr_y := -1\<rparr>, n2))))
      else if mode s = 1 then
        (case fx_of (X s) (Y s) (curr_x s) of
           Inl e \<Rightarrow> Some (Inl e)
         | Inr v \<Rightarrow> Some (Inr (s\<lparr>fx := v\<rparr>, n)))
      else if mode s = 2 then
        (case uniform g n 0 (fx s) of
           (y, n1) \<Rightarrow> Some (Inr (s\<lparr>curr_y := y, slice := (-1, -1)\<rparr>, n1)))
      else if mode s = 3 then Some (Inr (s\<lparr>horizontal := curr_y s\<rparr>, n))
      else if mode s = 4 then
        (case update_fn_call g s n of
           None \<Rightarrow> None
         | Some (Inl e) \<Rightarrow> Some (Inl e)
         | Some (Inr (lr, n1)) \<Rightarrow> Some (Inr (s\<lparr>slice := lr\<rparr>, n1)))
      else Some (Inr (s, n)))"

section \<open>Properties of intervals written during a search\<close>

text \<open>Each interval of the list contains the one before it, starting from \<open>p\<close>.\<close>

fun widening :: "real \<times> real \<Rightarrow> (real \<times> real) list \<Rightarrow> bool" where
  "widening p [] = True"
| "widening p (q # ps) = (fst q \<le> fst p \<and> snd p \<le> snd q \<and> widening q ps)"

text \<open>Each interval of the list is twice as wide as the one before it, starting from \<open>p\<close>.\<close>

fun doubling :: "real \<times> real \<Rightarrow> (real \<times> real) list \<Rightarrow> bool" where
  "doubling p [] = True"
| "doubling p (q # ps) = (snd q - fst q = 2 * (snd p - fst p) \<and> doubling q ps)"

section \<open>Nearest-grid-point evaluation\<close>

lemma argmin_scan_spec:
  assumes "i = length pre" "best_i < i" "best = pre ! best_i"
    and "\<forall>j<length pre. best \<le> pre ! j" and "\<forall>j<best_i. best < pre ! j"
  shows "argmin_scan as i best_i best < length (pre @ as) \<and>
         (\<forall>j<length (pre @ as). (pre @ as) ! argmin_scan as i best_i best \<le> (pre @ as) ! j) \<and>
         (\<forall>j<argmin_scan as i best_i best.
             (pre @ as) ! argmin_scan as i best_i best < (pre @ as) ! j)"
  using assms
proof (induction as arbitrary: pre i best_i best)
  case Nil
  then show ?case by simp
next
  case (Cons a as)
  show ?case
  proof (cases "a < best")
    case True
    have "argmin_scan as (Suc i) i a < length ((pre @ [a]) @ as) \<and>
         (\<forall>j<length ((pre @ [a]) @ as). ((pre @ [a]) @ as) ! argmin_scan as (Suc i) i a \<le> ((pre @ [a]) @ as) ! j) \<and>
         (\<forall>j<argmin_scan as (Suc i) i a.
             ((pre @ [a]) @ as) ! argmin_scan as (Suc i) i a < ((pre @ [a]) @ as) ! j)"
    proof (rule Cons.IH)
      show "Suc i = length (pre @ [a])" using Cons.prems by simp
      show "i < Suc i" by simp
      show "a = (pre @ [a]) ! i" using Cons.prems by simp
      show "\<forall>j<length (pre @ [a]). a \<le> (pre @ [a]) ! j"
      proof (intro allI impI)
        fix j assume j: "j < length (pre @ [a])"
        show "a \<le> (pre @ [a]) ! j"
        proof (cases "j < length pre")
          case True
          with Cons.prems(4) have "best \<le> pre ! j" by simp
          with \<open>a < best\<close> True show ?thesis by (simp add: nth_append)
        next
          case False
          with j have "j = length pre" by simp
          then show ?thesis by simp
        qed
      qed
      show "\<forall>j<i. a < (pre @ [a]) ! j"
        using Cons.prems True by (auto simp: nth_append)
    qed
    with True show ?thesis by simp
  next
    case False
    have "argmin_scan as (Suc i) best_i best < length ((pre @ [a]) @ as) \<and>
         (\<forall>j<length ((pre @ [a]) @ as). ((pre @ [a]) @ as) ! argmin_scan as (Suc i) best_i best \<le> ((pre @ [a]) @ as) ! j) \<and>
         (\<forall>j<argmin_scan as (Suc i) best_i best.
             ((pre @ [a]) @ as) ! argmin_scan as (Suc i) best_i best < ((pre @ [a]) @ as) ! j)"
    proof (rule Cons.IH)
      show "Suc i = length (pre @ [a])" using Cons.prems by simp
      show "best_i < Suc i" using Cons.prems by simp
      show "best = (pre @ [a]) ! best_i" using Cons.prems by (simp add: nth_append)
      show "\<forall>j<length (pre @ [a]). best \<le> (pre @ [a]) ! j"
        using Cons.prems False by (auto simp: nth_append less_Suc_eq)
      show "\<forall>j<best_i. best < (pre @ [a]) ! j"
        using Cons.prems by (auto simp: nth_append)
    qed
    with False show ?thesis by simp
  qed
qed

lemma argmin_spec:
  assumes "as \<noteq> []"
  shows "\<exists>k<length as. argmin as = Inr k \<and> (\<forall>j<length as. as ! k \<le> as ! j) \<and>
           (\<forall>j<k. as ! k < as ! j)"
proof -
  from assms obtain a rest where as: "as = a # rest" by (cases as) auto
  have "argmin_scan rest 1 0 a < length ([a] @ rest) \<and>
         (\<forall>j<length ([a] @ rest). ([a] @ rest) ! argmin_scan rest 1 0 a \<le> ([a] @ rest) ! j) \<and>
         (\<forall>j<argmin_scan rest 1 0 a. ([a] @ rest) ! argmin_scan rest 1 0 a < ([a] @ rest) ! j)"
    by (rule argmin_scan_spec) auto
  then show ?thesis unfolding as argmin_def by simp
qed

text \<open>
  C8. On a non-empty grid (with one density value per grid point), \<open>fx_of Xs Ys x\<close> returns
  \<open>Ys ! i\<close> for an index \<open>i\<close> whose grid point minimises the distance to \<open>x\<close>, and every
  grid point of lower index is strictly farther away: ties go to the lower index.
\<close>

theorem fx_of_nearest_lowest_index:
  assumes "Xs \<noteq> []" and "length Ys = length Xs"
  shows "\<exists>i<length Xs. fx_of Xs Ys x = Inr (Ys ! i) \<and>
           (\<forall>j<length Xs. \<bar>Xs ! i - x\<bar> \<le> \<bar>Xs ! j - x\<bar>) \<and>
           (\<forall>j<i. \<bar>Xs ! i - x\<bar> < \<bar>Xs ! j - x\<bar>)"
proof -
  let ?d = "map (\<lambda>a. \<bar>a - x\<bar>) Xs"
  from assms(1) have "?d \<noteq> []" by simp
  from argmin_spec [OF this] obtain k where k: "k < length Xs" "argmin ?d = Inr k"
    "\<forall>j<length Xs. ?d ! k \<le> ?d ! j" "\<forall>j<k. ?d ! k < ?d ! j" by auto
  have "fx_of Xs Ys x = Inr (Ys ! k)" using k(1,2) assms(2) by (simp add: fx_of_def item_def)
  moreover have "\<forall>j<length Xs. \<bar>Xs ! k - x\<bar> \<le> \<bar>Xs ! j - x\<bar>" using k(1,3) by auto
  moreover have "\<forall>j<k. \<bar>Xs ! k - x\<bar> < \<bar>Xs ! j - x\<bar>" using k(1,4) by auto
  ultimately show ?thesis using k(1) by blast
qed

theorem fx_of_nearest_lowest_index_witness:
  "[0, 1, 2::real] \<noteq> [] \<and> length [5, 7, 9::real] = length [0, 1, 2::real] \<and>
   fx_of [0, 1, 2] [5, 7, 9] (1/2) = Inr 5 \<and>
   (\<exists>i<length [0, 1, 2::real]. fx_of [0, 1, 2] [5, 7, 9] (1/2) = Inr ([5, 7, 9] ! i) \<and>
           (\<forall>j<length [0, 1, 2::real]. \<bar>[0, 1, 2] ! i - 1/2\<bar> \<le> \<bar>[0, 1, 2::real] ! j - 1/2\<bar>) \<and>
           (\<forall>j<i. \<bar>[0, 1, 2] ! i - 1/2\<bar> < \<bar>[0, 1, 2::real] ! j - 1/2\<bar>))"
  using fx_of_nearest_lowest_index [of "[0, 1, 2]" "[5, 7, 9]" "1/2"]
  by (simp add: fx_of_def argmin_def item_def)


section \<open>Stepping out: what the loops compute\<close>


lemma fx_of_total:
  assumes "Xs \<noteq> []" and "length Ys = length Xs"
  shows "\<exists>v. fx_of Xs Ys x = Inr v"
proof -
  from assms(1) have "map (\<lambda>a. \<bar>a - x\<bar>) Xs \<noteq> []" by simp
  from argmin_spec [OF this] obtain k where "k < length Xs" "argmin (map (\<lambda>a. \<bar>a - x\<bar>) Xs) = Inr k"
    by auto
  with assms(2) show ?thesis by (simp add: fx_of_def item_def)
qed

lemma stepout_left_spec:
  "stepout_left Xs Ys y w r l j tr = Inr (l', j', tr') \<Longrightarrow>
   \<exists>a::nat. int a \<le> max j 0 \<and> j' = j - int a \<and> l' = l - w * real a \<and>
     tr' = tr @ map (\<lambda>i. (l - w * real i, r)) [1..<Suc a]"
proof (induction Xs Ys y w r l j tr rule: stepout_left.induct)
  case (1 Xs Ys y w r l j tr)
  show ?case
  proof (cases "j > 0 \<and> (\<exists>fl. fx_of Xs Ys l = Inr fl \<and> y < fl)")
    case True
    then obtain fl where fl: "j > 0" "fx_of Xs Ys l = Inr fl" "y < fl" by blast
    with "1.prems" have "stepout_left Xs Ys y w r (l - w) (j - 1) (tr @ [(l - w, r)]) = Inr (l', j', tr')"
      by (subst (asm) stepout_left.simps) simp
    from "1.IH" [OF fl(1) fl(2) fl(3) this] obtain a :: nat where
      a: "int a \<le> max (j - 1) 0" "j' = j - 1 - int a" "l' = l - w - w * real a"
         "tr' = (tr @ [(l - w, r)]) @ map (\<lambda>i. (l - w - w * real i, r)) [1..<Suc a]"
      by blast
    have "map (\<lambda>i. (l - w * real i, r)) [1..<Suc (Suc a)] =
          (l - w, r) # map (\<lambda>i. (l - w - w * real i, r)) [1..<Suc a]"
      by (simp add: upt_conv_Cons map_Suc_upt [symmetric] algebra_simps del: upt_Suc)
    with a fl(1) have "int (Suc a) \<le> max j 0 \<and> j' = j - int (Suc a) \<and> l' = l - w * real (Suc a) \<and>
       tr' = tr @ map (\<lambda>i. (l - w * real i, r)) [1..<Suc (Suc a)]"
      by (simp add: algebra_simps)
    then show ?thesis by blast
  next
    case False
    with "1.prems" have "l' = l \<and> j' = j \<and> tr' = tr"
      by (subst (asm) stepout_left.simps) (auto split: if_splits sum.splits)
    then show ?thesis by (intro exI [of _ 0]) simp
  qed
qed

lemma stepout_right_spec:
  "stepout_right Xs Ys y w l r k tr = Inr (r', k', tr') \<Longrightarrow>
   \<exists>b::nat. int b \<le> max k 0 \<and> k' = k - int b \<and> r' = r + w * real b \<and>
     tr' = tr @ map (\<lambda>i. (l, r + w * real i)) [1..<Suc b]"
proof (induction Xs Ys y w l r k tr rule: stepout_right.induct)
  case (1 Xs Ys y w l r k tr)
  show ?case
  proof (cases "k > 0 \<and> (\<exists>fr. fx_of Xs Ys r = Inr fr \<and> y < fr)")
    case True
    then obtain fr where fr: "k > 0" "fx_of Xs Ys r = Inr fr" "y < fr" by blast
    with "1.prems" have "stepout_right Xs Ys y w l (r + w) (k - 1) (tr @ [(l, r + w)]) = Inr (r', k', tr')"
      by (subst (asm) stepout_right.simps) simp
    from "1.IH" [OF fr(1) fr(2) fr(3) this] obtain b :: nat where
      b: "int b \<le> max (k - 1) 0" "k' = k - 1 - int b" "r' = r + w + w * real b"
         "tr' = (tr @ [(l, r + w)]) @ map (\<lambda>i. (l, r + w + w * real i)) [1..<Suc b]"
      by blast
    have "map (\<lambda>i. (l, r + w * real i)) [1..<Suc (Suc b)] =
          (l, r + w) # map (\<lambda>i. (l, r + w + w * real i)) [1..<Suc b]"
      by (simp add: upt_conv_Cons map_Suc_upt [symmetric] algebra_simps del: upt_Suc)
    with b fr(1) have "int (Suc b) \<le> max k 0 \<and> k' = k - int (Suc b) \<and> r' = r + w * real (Suc b) \<and>
       tr' = tr @ map (\<lambda>i. (l, r + w * real i)) [1..<Suc (Suc b)]"
      by (simp add: algebra_simps)
    then show ?thesis by blast
  next
    case False
    with "1.prems" have "r' = r \<and> k' = k \<and> tr' = tr"
      by (subst (asm) stepout_right.simps) (auto split: if_splits sum.splits)
    then show ?thesis by (intro exI [of _ 0]) simp
  qed
qed



text \<open>What a call of stepout returns, in closed form.\<close>

lemma stepout_spec:
  assumes "stepout Xs Ys g n x y w m = Inr ((l, r), ltr, rtr, n')"
  shows "\<exists>a b::nat.
           int a \<le> max \<lfloor>of_int m * g (Suc n)\<rfloor> 0 \<and>
           int b \<le> max (m - 1 - \<lfloor>of_int m * g (Suc n)\<rfloor>) 0 \<and>
           l = x - w * g n - w * real a \<and>
           r = x - w * g n + w + w * real b \<and>
           ltr = map (\<lambda>i. (x - w * g n - w * real i, x - w * g n + w)) [1..<Suc a] \<and>
           rtr = map (\<lambda>i. (l, x - w * g n + w + w * real i)) [1..<Suc b] \<and>
           n' = n + 2"
proof -
  let ?l0 = "x - w * g n" and ?j = "\<lfloor>of_int m * g (Suc n)\<rfloor>"
  from assms obtain j' k' where
    L: "stepout_left Xs Ys y w (?l0 + w) ?l0 ?j [] = Inr (l, j', ltr)" and
    R: "stepout_right Xs Ys y w l (?l0 + w) (m - 1 - ?j) [] = Inr (r, k', rtr)" and
    n': "n' = n + 2"
    by (auto simp: stepout_def uniform_def Let_def split: sum.splits prod.splits)
  from stepout_left_spec [OF L] obtain a :: nat where
    a: "int a \<le> max ?j 0" "l = ?l0 - w * real a"
       "ltr = map (\<lambda>i. (?l0 - w * real i, ?l0 + w)) [1..<Suc a]" by auto
  from stepout_right_spec [OF R] obtain b :: nat where
    b: "int b \<le> max (m - 1 - ?j) 0" "r = ?l0 + w + w * real b"
       "rtr = map (\<lambda>i. (l, ?l0 + w + w * real i)) [1..<Suc b]" by auto
  from a b n' show ?thesis by blast
qed



section \<open>Doubling: what the loop computes\<close>

lemma widening_contains:
  "widening p ps \<Longrightarrow> q \<in> set ps \<Longrightarrow> fst q \<le> fst p \<and> snd p \<le> snd q"
proof (induction ps arbitrary: p)
  case Nil
  then show ?case by simp
next
  case (Cons a ps)
  show ?case
  proof (cases "q = a")
    case True
    with Cons.prems show ?thesis by simp
  next
    case False
    with Cons.prems have "q \<in> set ps" "widening a ps" by auto
    from Cons.IH [OF this(2) this(1)] Cons.prems(1) show ?thesis by auto
  qed
qed

lemma widening_append:
  "widening p (ps @ qs) = (widening p ps \<and> widening (last (p # ps)) qs)"
  by (induction ps arbitrary: p) auto

lemma double_body_cases:
  "double_body v l r = (if v < 1/2 then (l - (r - l), r) else (l, r + (r - l)))"
  by (simp add: double_body_def Let_def)

lemma double_writes_widening:
  "l \<le> r \<Longrightarrow> widening (l, r) (double_writes fuel Xs Ys y g k l r n)"
proof (induction fuel arbitrary: l r n)
  case 0
  then show ?case by simp
next
  case (Suc fuel)
  have a: "widening (l - (r - l), r) (double_writes fuel Xs Ys y g k (l - (r - l)) r (Suc n))"
    using Suc.prems by (intro Suc.IH) simp
  have b: "widening (l, r + (r - l)) (double_writes fuel Xs Ys y g k l (r + (r - l)) (Suc n))"
    using Suc.prems by (intro Suc.IH) simp
  from a b Suc.prems show ?case
    by (simp add: double_body_cases uniform_def split: sum.split)
qed

lemma double_writes_doubling:
  "doubling (l, r) (double_writes fuel Xs Ys y g k l r n)"
proof (induction fuel arbitrary: l r n)
  case 0
  then show ?case by simp
next
  case (Suc fuel)
  from Suc.IH [of "l - (r - l)" r "Suc n"] Suc.IH [of l "r + (r - l)" "Suc n"]
  show ?case
    by (simp add: double_body_cases uniform_def split: sum.split)
qed

lemma double_writes_length: "length (double_writes fuel Xs Ys y g k l r n) \<le> fuel"
proof (induction fuel arbitrary: l r n)
  case 0
  then show ?case by simp
next
  case (Suc fuel)
  from Suc.IH [of "l - (r - l)" r "Suc n"] Suc.IH [of l "r + (r - l)" "Suc n"]
  show ?case
    by (simp add: double_body_cases uniform_def split: sum.split)
qed




lemma double_loop_writes_aux:
  assumes "double_loop Xs Ys y g k l r n tr = Some res"
  shows "case res of Inl e \<Rightarrow> True
         | Inr ((l', r'), tr', n') \<Rightarrow>
            (\<exists>fuel. tr' = tr @ double_writes fuel Xs Ys y g k l r n \<and>
               (l', r') = last ((l, r) # double_writes fuel Xs Ys y g k l r n) \<and>
               n' = n + length (double_writes fuel Xs Ys y g k l r n))"
proof (rule double_loop.raw_induct [where P = "\<lambda>Xs Ys y g k l r n tr res.
         case res of Inl e \<Rightarrow> True
         | Inr ((l', r'), tr', n') \<Rightarrow>
            (\<exists>fuel. tr' = tr @ double_writes fuel Xs Ys y g k l r n \<and>
               (l', r') = last ((l, r) # double_writes fuel Xs Ys y g k l r n) \<and>
               n' = n + length (double_writes fuel Xs Ys y g k l r n))", OF _ assms], goal_cases)
  case (1 double_loop' Xs Ys y g k l r n tr res)
  show ?case
  proof (cases "double_cond Xs Ys y k l r")
    case (Inl e)
    with 1(2) show ?thesis by auto
  next
    case (Inr c)
    show ?thesis
    proof (cases c)
      case False
      with 1(2) Inr have "res = Inr ((l, r), tr, n)" by simp
      moreover have "double_writes 0 Xs Ys y g k l r n = []" by simp
      ultimately show ?thesis by (auto intro!: exI [of _ 0])
    next
      case True
      obtain l1 r1 where b: "double_body (g n) l r = (l1, r1)" by (cases "double_body (g n) l r")
      with 1(2) True Inr
      have "double_loop' Xs Ys y g k l1 r1 (Suc n) (tr @ [(l1, r1)]) = Some res"
        by (simp add: uniform_def)
      note IH = 1(1) [OF this]
      show ?thesis
      proof (cases res)
        case (Inl e)
        then show ?thesis by simp
      next
        case (Inr v)
        obtain l' r' tr' n' where v: "v = ((l', r'), tr', n')" by (metis surj_pair)
        from IH Inr v obtain fuel where
          f: "tr' = (tr @ [(l1, r1)]) @ double_writes fuel Xs Ys y g k l1 r1 (Suc n)"
             "(l', r') = last ((l1, r1) # double_writes fuel Xs Ys y g k l1 r1 (Suc n))"
             "n' = Suc n + length (double_writes fuel Xs Ys y g k l1 r1 (Suc n))"
          by auto
        have "double_writes (Suc fuel) Xs Ys y g k l r n =
                (l1, r1) # double_writes fuel Xs Ys y g k l1 r1 (Suc n)"
          using \<open>double_cond Xs Ys y k l r = Inr c\<close> True b by (simp add: uniform_def)
        with f have "tr' = tr @ double_writes (Suc fuel) Xs Ys y g k l r n \<and>
               (l', r') = last ((l, r) # double_writes (Suc fuel) Xs Ys y g k l r n) \<and>
               n' = n + length (double_writes (Suc fuel) Xs Ys y g k l r n)"
          by simp
        then have "\<exists>fuel. tr' = tr @ double_writes fuel Xs Ys y g k l r n \<and>
               (l', r') = last ((l, r) # double_writes fuel Xs Ys y g k l r n) \<and>
               n' = n + length (double_writes fuel Xs Ys y g k l r n)" ..
        with Inr v show ?thesis by simp
      qed
    qed
  qed
qed

lemma double_loop_writes:
  assumes "double_loop Xs Ys y g k l r n tr = Some (Inr ((l', r'), tr', n'))"
  shows "\<exists>fuel. tr' = tr @ double_writes fuel Xs Ys y g k l r n \<and>
           (l', r') = last ((l, r) # double_writes fuel Xs Ys y g k l r n) \<and>
           n' = n + length (double_writes fuel Xs Ys y g k l r n)"
  using double_loop_writes_aux [OF assms] by simp

section \<open>Every interval written contains the starting interval\<close>


lemma upt_1_Suc_Suc: "[1..<Suc (Suc a)] = [1..<Suc a] @ [Suc a]"
  by simp

lemma left_writes_widening:
  assumes "0 \<le> w"
  shows "widening (l, r) (map (\<lambda>i. (l - w * real i, r)) [1..<Suc a]) \<and>
         last ((l, r) # map (\<lambda>i. (l - w * real i, r)) [1..<Suc a]) = (l - w * real a, r)"
proof (induction a)
  case 0
  then show ?case by simp
next
  case (Suc a)
  have "l - w * real (Suc a) \<le> l - w * real a" using assms by (simp add: algebra_simps)
  with Suc show ?case
    unfolding upt_1_Suc_Suc map_append widening_append by simp
qed

lemma right_writes_widening:
  assumes "0 \<le> w"
  shows "widening (l, r) (map (\<lambda>i. (l, r + w * real i)) [1..<Suc b]) \<and>
         last ((l, r) # map (\<lambda>i. (l, r + w * real i)) [1..<Suc b]) = (l, r + w * real b)"
proof (induction b)
  case 0
  then show ?case by simp
next
  case (Suc b)
  have "r + w * real b \<le> r + w * real (Suc b)" using assms by (simp add: algebra_simps)
  with Suc show ?case
    unfolding upt_1_Suc_Suc map_append widening_append by simp
qed

lemma last_cons_append: "last (p # xs @ ys) = last (last (p # xs) # ys)"
  by (induction xs arbitrary: p) auto

lemma stepout_widening:
  assumes "0 \<le> w" and "stepout Xs Ys g n x y w m = Inr ((l, r), ltr, rtr, n')"
  shows "widening (x - w * g n, x - w * g n + w) (ltr @ rtr) \<and>
         (l, r) = last ((x - w * g n, x - w * g n + w) # ltr @ rtr)"
proof -
  let ?l0 = "x - w * g n"
  from stepout_spec [OF assms(2)] obtain a b :: nat where
    ab: "l = ?l0 - w * real a" "r = ?l0 + w + w * real b"
        "ltr = map (\<lambda>i. (?l0 - w * real i, ?l0 + w)) [1..<Suc a]"
        "rtr = map (\<lambda>i. (l, ?l0 + w + w * real i)) [1..<Suc b]"
    by blast
  from left_writes_widening [OF assms(1), of ?l0 "?l0 + w" a] ab(1,3)
  have L: "widening (?l0, ?l0 + w) ltr" "last ((?l0, ?l0 + w) # ltr) = (l, ?l0 + w)" by simp_all
  from right_writes_widening [OF assms(1), of l "?l0 + w" b] ab(2,4)
  have R: "widening (l, ?l0 + w) rtr" "last ((l, ?l0 + w) # rtr) = (l, r)" by simp_all
  have "widening (?l0, ?l0 + w) (ltr @ rtr)"
    unfolding widening_append using L R(1) by simp
  moreover have "last ((?l0, ?l0 + w) # ltr @ rtr) = (l, r)"
    unfolding last_cons_append L(2) R(2) ..
  ultimately show ?thesis by simp
qed


lemma initial_interval:
  assumes "0 \<le> u" "u \<le> 1" "0 \<le> (w::real)"
  shows "x - w * u \<le> x \<and> x \<le> x - w * u + w"
proof -
  have "0 \<le> w * u" using assms by simp
  moreover have "w * u \<le> w * 1" using assms by (intro mult_left_mono) auto
  ultimately show ?thesis by simp
qed

lemma double_widening:
  assumes "0 \<le> w" and "double Xs Ys g n x y w p = Some (Inr ((l, r), tr, n'))"
  shows "widening (x - w * g n, x - w * g n + w) tr \<and>
         (l, r) = last ((x - w * g n, x - w * g n + w) # tr) \<and>
         doubling (x - w * g n, x - w * g n + w) tr"
proof -
  let ?l0 = "x - w * g n"
  from assms(2) have "double_loop Xs Ys y g p ?l0 (?l0 + w) (Suc n) [] = Some (Inr ((l, r), tr, n'))"
    by (simp add: double_def uniform_def Let_def)
  from double_loop_writes [OF this] obtain fuel where
    f: "tr = double_writes fuel Xs Ys y g p ?l0 (?l0 + w) (Suc n)"
       "(l, r) = last ((?l0, ?l0 + w) # double_writes fuel Xs Ys y g p ?l0 (?l0 + w) (Suc n))"
    by auto
  have "?l0 \<le> ?l0 + w" using assms(1) by simp
  from double_writes_widening [OF this] double_writes_doubling f show ?thesis by simp
qed






section \<open>The search brackets the current point\<close>




section \<open>The step budget of stepping out\<close>





section \<open>Intermediate intervals and the doubling budget\<close>


lemma widening_all_contain:
  assumes "widening p ps" and "fst p \<le> x" and "x \<le> snd p"
  shows "\<forall>q\<in>set ps. fst q \<le> x \<and> x \<le> snd q"
proof
  fix q assume "q \<in> set ps"
  from widening_contains [OF assms(1) this] assms(2,3) show "fst q \<le> x \<and> x \<le> snd q" by simp
qed

text \<open>
  C10. Within one call of a search whose first draw \<open>u = g n\<close> lies in \<open>[0, 1]\<close> and whose
  width \<open>w\<close> is not negative, the starting interval contains \<open>x\<close>, and in the sequence of
  intervals written to the slice each one contains its predecessor (\<open>l\<close> never grows, \<open>r\<close>
  never shrinks), so each contains \<open>x\<close>. This holds for the writes of a returning
  \<open>stepout\<close>, for the writes of a returning \<open>double\<close>, and for the writes of \<open>double\<close> after
  any number of passes through its loop, whether or not it returns.
\<close>

theorem search_writes_widen:
  assumes "0 \<le> g n" and "g n \<le> 1" and "0 \<le> w"
  shows "(x - w * g n \<le> x \<and> x \<le> x - w * g n + w) \<and>
         (stepout Xs Ys g n x y w m = Inr ((l, r), ltr, rtr, n') \<longrightarrow>
            widening (x - w * g n, x - w * g n + w) (ltr @ rtr) \<and>
            (\<forall>q\<in>set (ltr @ rtr). fst q \<le> x \<and> x \<le> snd q)) \<and>
         (double Xs Ys g n x y w p = Some (Inr ((l2, r2), tr, n2)) \<longrightarrow>
            widening (x - w * g n, x - w * g n + w) tr \<and>
            (\<forall>q\<in>set tr. fst q \<le> x \<and> x \<le> snd q)) \<and>
         (widening (x - w * g n, x - w * g n + w)
            (double_writes fuel Xs Ys y g p (x - w * g n) (x - w * g n + w) (Suc n)) \<and>
          (\<forall>q\<in>set (double_writes fuel Xs Ys y g p (x - w * g n) (x - w * g n + w) (Suc n)).
             fst q \<le> x \<and> x \<le> snd q))"
proof -
  let ?p = "(x - w * g n, x - w * g n + w)"
  from initial_interval [OF assms, of x]
  have I: "fst ?p \<le> x" "x \<le> snd ?p" by simp_all
  have A: "widening ?p (ltr @ rtr) \<and> (\<forall>q\<in>set (ltr @ rtr). fst q \<le> x \<and> x \<le> snd q)"
    if st: "stepout Xs Ys g n x y w m = Inr ((l, r), ltr, rtr, n')"
  proof -
    from stepout_widening [OF assms(3) st] have W: "widening ?p (ltr @ rtr)" by simp
    from W widening_all_contain [OF W I] show ?thesis by simp
  qed
  have B: "widening ?p tr \<and> (\<forall>q\<in>set tr. fst q \<le> x \<and> x \<le> snd q)"
    if db: "double Xs Ys g n x y w p = Some (Inr ((l2, r2), tr, n2))"
  proof -
    from double_widening [OF assms(3) db] have W: "widening ?p tr" by simp
    from W widening_all_contain [OF W I] show ?thesis by simp
  qed
  have "x - w * g n \<le> x - w * g n + w" using assms(3) by simp
  from double_writes_widening [OF this]
  have W: "widening ?p (double_writes fuel Xs Ys y g p (x - w * g n) (x - w * g n + w) (Suc n))" .
  from I A B W widening_all_contain [OF W I] show ?thesis by simp
qed

theorem search_writes_widen_witness:
  "(0::real) \<le> 1/2 \<and> (1/2::real) \<le> 1 \<and> (0::real) \<le> 1/4 \<and>
   stepout [-8, 0, 8] [0, 1, 0] (\<lambda>n. if odd n then 1/4 else 1/2) 0 0 (1/2) (1/4) 4 =
     Inr ((- (3/8), 5/8), [(- (3/8), 1/8)], [(- (3/8), 3/8), (- (3/8), 5/8)], 2) \<and>
   double [-8, 0, 8] [0, 1, 0] (\<lambda>n. if odd n then 1/4 else 1/2) 0 0 (1/2) (1/4) 5 =
     Some (Inr ((- (43/8), 85/8),
       [(- (3/8), 1/8), (- (3/8), 5/8), (- (11/8), 5/8), (- (11/8), 21/8),
        (- (43/8), 21/8), (- (43/8), 85/8)], 7)) \<and>
   double_writes 2 [-8, 0, 8] [0, 1, 0] (1/2) (\<lambda>n. if odd n then 1/4 else 1/2) 5
       (- (1/8)) (1/8) 1 = [(- (3/8), 1/8), (- (3/8), 5/8)] \<and>
   widening (- (1/8), 1/8) ([(- (3/8), 1/8)] @ [(- (3/8), 3/8), (- (3/8), 5/8)]) \<and>
   widening (- (1/8), 1/8)
       [(- (3/8), 1/8), (- (3/8), 5/8), (- (11/8), 5/8), (- (11/8), 21/8),
        (- (43/8), 21/8), (- (43/8), 85/8)] \<and>
   widening (- (1/8), 1/8) [(- (3/8), 1/8), (- (3/8), 5/8)]"
proof -
  let ?g = "\<lambda>n::nat. if odd n then 1/4 else 1/2 :: real"
  have g: "0 \<le> ?g 0" "?g 0 \<le> 1" "(0::real) \<le> 1/4" by simp_all
  have st: "stepout [-8, 0, 8] [0, 1, 0] ?g 0 0 (1/2) (1/4) 4 =
     Inr ((- (3/8), 5/8), [(- (3/8), 1/8)], [(- (3/8), 3/8), (- (3/8), 5/8)], 2)"
    by (simp add: stepout_def uniform_def fx_of_def argmin_def item_def Let_def
        stepout_left.simps stepout_right.simps)
  have db: "double [-8, 0, 8] [0, 1, 0] ?g 0 0 (1/2) (1/4) 5 =
     Some (Inr ((- (43/8), 85/8),
       [(- (3/8), 1/8), (- (3/8), 5/8), (- (11/8), 5/8), (- (11/8), 21/8),
        (- (43/8), 21/8), (- (43/8), 85/8)], 7))"
    by (simp add: double_def uniform_def fx_of_def argmin_def item_def Let_def
        double_loop.simps double_cond_def double_body_def)
  have dw: "double_writes 2 [-8, 0, 8] [0, 1, 0] (1/2) ?g 5 (- (1/8)) (1/8) 1 =
       [(- (3/8), 1/8), (- (3/8), 5/8)]"
    by (simp add: numeral_2_eq_2 uniform_def fx_of_def argmin_def item_def
        double_cond_def double_body_def)
  from search_writes_widen [where g = ?g and n = 0 and w = "1/4" and Xs = "[-8, 0, 8]"
      and Ys = "[0, 1, 0]" and x = 0 and y = "1/2" and m = 4 and l = "- (3/8)" and r = "5/8"
      and ltr = "[(- (3/8), 1/8)]" and rtr = "[(- (3/8), 3/8), (- (3/8), 5/8)]" and n' = 2
      and p = 5 and ?l2.0 = "- (43/8)" and ?r2.0 = "85/8"
      and tr = "[(- (3/8), 1/8), (- (3/8), 5/8), (- (11/8), 5/8), (- (11/8), 21/8),
        (- (43/8), 21/8), (- (43/8), 85/8)]" and ?n2.0 = 7 and fuel = 2, OF g] st db dw
  have "widening (- (1/8), 1/8) ([(- (3/8), 1/8)] @ [(- (3/8), 3/8), (- (3/8), 5/8)]) \<and>
   widening (- (1/8), 1/8)
       [(- (3/8), 1/8), (- (3/8), 5/8), (- (11/8), 5/8), (- (11/8), 21/8),
        (- (43/8), 21/8), (- (43/8), 85/8)] \<and>
   widening (- (1/8), 1/8) [(- (3/8), 1/8), (- (3/8), 5/8)]"
    by simp
  with st db dw show ?thesis by simp
qed

text \<open>When every tabulated density value is above \<open>y\<close>, the loop of \<open>double\<close> never stops:
  nothing in its body changes \<open>k\<close>.\<close>

lemma fx_of_in_set: "fx_of Xs Ys x = Inr v \<Longrightarrow> v \<in> set Ys"
  by (auto simp: fx_of_def item_def split: sum.splits if_splits)

lemma double_loop_diverges:
  assumes "0 < k" and "Xs \<noteq> []" and "length Ys = length Xs" and "\<forall>v\<in>set Ys. y < v"
  shows "double_loop Xs Ys y g k l r n tr = None"
proof (rule ccontr)
  assume "double_loop Xs Ys y g k l r n tr \<noteq> None"
  then obtain res where res: "double_loop Xs Ys y g k l r n tr = Some res" by blast
  have "\<not> (0 < k \<and> Xs \<noteq> [] \<and> length Ys = length Xs \<and> (\<forall>v\<in>set Ys. y < v))"
  proof (rule double_loop.raw_induct [where P = "\<lambda>Xs Ys y g k l r n tr res.
           \<not> (0 < k \<and> Xs \<noteq> [] \<and> length Ys = length Xs \<and> (\<forall>v\<in>set Ys. y < v))", OF _ res],
         goal_cases)
    case (1 double_loop' Xs Ys y g k l r n tr res)
    show ?case
    proof
      assume a: "0 < k \<and> Xs \<noteq> [] \<and> length Ys = length Xs \<and> (\<forall>v\<in>set Ys. y < v)"
      then have ne: "Xs \<noteq> []" and len: "length Ys = length Xs" by simp_all
      from fx_of_total [OF ne len, of l] obtain v where v: "fx_of Xs Ys l = Inr v" by blast
      from fx_of_in_set [OF v] a have "y < v" by simp
      with v a have c: "double_cond Xs Ys y k l r = Inr True" by (simp add: double_cond_def)
      obtain l1 r1 where b: "double_body (g n) l r = (l1, r1)" by (cases "double_body (g n) l r")
      from 1(2) c b have "double_loop' Xs Ys y g k l1 r1 (Suc n) (tr @ [(l1, r1)]) = Some res"
        by (simp add: uniform_def)
      from 1(1) [OF this] a show False by simp
    qed
  qed
  with assms show False by simp
qed

text \<open>
  C3. With the default budget \<open>p = 5\<close> the loop of \<open>double\<close> goes through six passes on
  this input before both ends leave the slice: the number of passes is not bounded by
  \<open>p\<close>.
\<close>

theorem double_exceeds_budget:
  "double [-8, 0, 8] [0, 1, 0] (\<lambda>n. if odd n then 1/4 else 1/2) 0 0 (1/2) (1/4) 5 =
     Some (Inr ((- (43/8), 85/8),
       [(- (3/8), 1/8), (- (3/8), 5/8), (- (11/8), 5/8), (- (11/8), 21/8),
        (- (43/8), 21/8), (- (43/8), 85/8)], 7)) \<and>
   length [(- (3/8), 1/8), (- (3/8), 5/8), (- (11/8), 5/8), (- (11/8), 21/8),
        (- (43/8), 21/8), (- (43/8), 85/8 :: real)] = 6 \<and> \<not> (6::int) \<le> 5"
  by (simp add: double_def uniform_def fx_of_def argmin_def item_def Let_def
        double_loop.simps double_cond_def double_body_def)

section \<open>Collapsing neighbouring boundary markers\<close>


lemma collapse_loop_spec:
  "1 \<le> i \<Longrightarrow>
   length (collapse_loop i d) = length d \<and>
   (\<forall>j<i. j < length d \<longrightarrow> collapse_loop i d ! j = d ! j) \<and>
   (\<forall>j\<ge>i. j < length d \<longrightarrow>
      collapse_loop i d ! j = (if collapse_loop i d ! (j - 1) \<noteq> 0 then 0 else d ! j))"
proof (induction i d rule: collapse_loop.induct)
  case (1 i d)
  show ?case
  proof (cases "i < length d")
    case False
    then show ?thesis by (subst (1 2 3 4) collapse_loop.simps) simp
  next
    case True
    let ?d' = "if d ! (i - 1) \<noteq> 0 then d[i := 0] else d"
    let ?c = "collapse_loop (Suc i) ?d'"
    have c: "collapse_loop i d = ?c" using True by (subst collapse_loop.simps) simp
    have len': "length ?d' = length d" by simp
    from "1.IH" [OF True] have
      IH: "length ?c = length ?d'"
          "\<And>j. j < Suc i \<Longrightarrow> j < length ?d' \<Longrightarrow> ?c ! j = ?d' ! j"
          "\<And>j. Suc i \<le> j \<Longrightarrow> j < length ?d' \<Longrightarrow>
              ?c ! j = (if ?c ! (j - 1) \<noteq> 0 then 0 else ?d' ! j)"
      by simp_all
    have A: "length ?c = length d" using IH(1) by simp
    have B: "?c ! j = d ! j" if "j < i" "j < length d" for j
    proof -
      from that have "?c ! j = ?d' ! j" by (intro IH(2)) simp_all
      also have "\<dots> = d ! j" using that by simp
      finally show ?thesis .
    qed
    have C: "?c ! j = (if ?c ! (j - 1) \<noteq> 0 then 0 else d ! j)" if "i \<le> j" "j < length d" for j
    proof (cases "j = i")
      case True
      have "?c ! i = ?d' ! i" using \<open>i < length d\<close> by (intro IH(2)) simp_all
      moreover have "?c ! (i - 1) = d ! (i - 1)" using \<open>i < length d\<close> "1.prems" by (intro B) simp_all
      ultimately show ?thesis using True \<open>i < length d\<close> by simp
    next
      case False
      with that have "Suc i \<le> j" by simp
      from IH(3) [OF this] that have "?c ! j = (if ?c ! (j - 1) \<noteq> 0 then 0 else ?d' ! j)" by simp
      moreover have "?d' ! j = d ! j" using False by simp
      ultimately show ?thesis by simp
    qed
    show ?thesis unfolding c using A B C by blast
  qed
qed

lemma collapse_length: "length (collapse d) = length d"
  using collapse_loop_spec [of 1 d] by (simp add: collapse_def)

lemma collapse_head: "0 < length d \<Longrightarrow> collapse d ! 0 = d ! 0"
  using collapse_loop_spec [of 1 d] by (simp add: collapse_def)

lemma collapse_step:
  "1 \<le> j \<Longrightarrow> j < length d \<Longrightarrow>
   collapse d ! j = (if collapse d ! (j - 1) \<noteq> 0 then 0 else d ! j)"
  using collapse_loop_spec [of 1 d] by (simp add: collapse_def)

lemma collapse_zero: "j < length d \<Longrightarrow> d ! j = 0 \<Longrightarrow> collapse d ! j = 0"
  using collapse_head [of d] collapse_step [of j d] by (cases "j = 0") auto

lemma collapse_run:
  assumes "s + len \<le> length d" and "\<forall>i<len. d ! (s + i) \<noteq> 0"
    and "s = 0 \<or> d ! (s - 1) = 0"
  shows "i < len \<Longrightarrow> collapse d ! (s + i) = (if even i then d ! (s + i) else 0)"
proof (induction i)
  case 0
  show ?case
  proof (cases "s = 0")
    case True
    from 0 assms(1) have "0 < length d" by (cases d) simp_all
    from collapse_head [OF this] True show ?thesis by simp
  next
    case False
    with assms(3) have z: "d ! (s - 1) = 0" by simp
    from False 0 assms(1) have "s - 1 < length d" by simp
    from collapse_zero [OF this z] have "collapse d ! (s - 1) = 0" .
    moreover from False 0 assms(1) have "1 \<le> s" "s < length d" by simp_all
    ultimately show ?thesis using collapse_step [of s d] by simp
  qed
next
  case (Suc i)
  then have IH: "collapse d ! (s + i) = (if even i then d ! (s + i) else 0)" by simp
  from Suc.prems assms(2) have nz: "d ! (s + i) \<noteq> 0" by simp
  from Suc.prems assms(1) have "1 \<le> s + Suc i" "s + Suc i < length d" by simp_all
  from collapse_step [OF this]
  have "collapse d ! (s + Suc i) = (if collapse d ! (s + i) \<noteq> 0 then 0 else d ! (s + Suc i))"
    by simp
  with IH nz show ?case by simp
qed

text \<open>
  C7. The in-place pass keeps the length of the sign-difference array, leaves zero
  entries zero, and in every run of consecutive nonzero entries that starts the array or
  follows a zero entry it keeps the entries at even offsets (the first, the third, ...)
  and clears those at odd offsets (the second, the fourth, ...).
\<close>

theorem collapse_keeps_alternate_entries:
  assumes "s + len \<le> length d" and "\<forall>i<len. d ! (s + i) \<noteq> 0"
    and "s = 0 \<or> d ! (s - 1) = 0"
  shows "length (collapse d) = length d \<and>
         (\<forall>j<length d. d ! j = 0 \<longrightarrow> collapse d ! j = 0) \<and>
         (\<forall>i<len. collapse d ! (s + i) = (if even i then d ! (s + i) else 0))"
  using collapse_length [of d] collapse_zero [of _ d] collapse_run [OF assms] by blast

theorem collapse_keeps_alternate_entries_witness:
  "np_diff (map (\<lambda>v. sgn (v - 0)) [0, 1, 0, 1, 0, 0 :: real]) = [1, -1, 1, -1, 0] \<and>
   0 + 4 \<le> length [1, -1, 1, -1, 0 :: real] \<and>
   [1, -1, 1, -1, 0 :: real] ! 0 \<noteq> 0 \<and> [1, -1, 1, -1, 0 :: real] ! 1 \<noteq> 0 \<and>
   [1, -1, 1, -1, 0 :: real] ! 2 \<noteq> 0 \<and> [1, -1, 1, -1, 0 :: real] ! 3 \<noteq> 0 \<and>
   collapse [1, -1, 1, -1, 0] ! (0 + 0) = 1 \<and> collapse [1, -1, 1, -1, 0] ! (0 + 1) = 0 \<and>
   collapse [1, -1, 1, -1, 0] ! (0 + 2) = 1 \<and> collapse [1, -1, 1, -1, 0] ! (0 + 3) = 0 \<and>
   collapse [1, -1, 1, -1, 0] ! 4 = 0 \<and>
   length (collapse [1, -1, 1, -1, 0]) = 5"
proof -
  have a: "0 + 4 \<le> length [1, -1, 1, -1, 0 :: real]" by simp
  have b: "\<forall>i<4. [1, -1, 1, -1, 0 :: real] ! (0 + i) \<noteq> 0"
  proof (intro allI impI)
    fix i :: nat assume "i < 4"
    then have "i = 0 \<or> i = 1 \<or> i = 2 \<or> i = 3" by arith
    then show "[1, -1, 1, -1, 0 :: real] ! (0 + i) \<noteq> 0" by auto
  qed
  have c: "(0::nat) = 0 \<or> [1, -1, 1, -1, 0 :: real] ! (0 - 1) = 0" by simp
  have e: "np_diff (map (\<lambda>v. sgn (v - 0)) [0, 1, 0, 1, 0, 0 :: real]) = [1, -1, 1, -1, 0]"
    by simp
  note th = collapse_keeps_alternate_entries [OF a b c]
  from th have len: "length (collapse [1, -1, 1, -1, 0]) = 5" by simp
  from th have last: "collapse [1, -1, 1, -1, 0] ! 4 = 0" by simp
  from th have run: "\<forall>i<4. collapse [1, -1, 1, -1, 0] ! (0 + i) =
        (if even i then [1, -1, 1, -1, 0 :: real] ! (0 + i) else 0)" by blast
  from run have "collapse [1, -1, 1, -1, 0] ! (0 + 0) = 1" by (elim allE [of _ 0]) simp
  moreover from run have "collapse [1, -1, 1, -1, 0] ! (0 + 1) = 0" by (elim allE [of _ 1]) simp
  moreover from run have "collapse [1, -1, 1, -1, 0] ! (0 + 2) = 1" by (elim allE [of _ 2]) simp
  moreover from run have "collapse [1, -1, 1, -1, 0] ! (0 + 3) = 0" by (elim allE [of _ 3]) simp
  ultimately show ?thesis using e len last by simp
qed

theorem collapse_first_only_counterexample:
  "np_diff (map (\<lambda>v. sgn (v - 0)) [1, 0, 1, 0 :: real]) = [-1, 1, -1] \<and>
   boundary_markers [1, 0, 1, 0] 0 = [-1, 0, -1] \<and>
   boundary_markers [1, 0, 1, 0] 0 ! 2 \<noteq> 0"
  by (simp add: boundary_markers_def collapse_def collapse_loop.simps)

section \<open>Construction\<close>


lemma np_diff_length: "length (np_diff a) = length a - 1"
  by (induction a rule: np_diff.induct) simp_all

lemma boundary_markers_length: "length (boundary_markers Ys th) = length Ys - 1"
  by (simp add: boundary_markers_def collapse_length np_diff_length)

lemma items_ok:
  "\<forall>i\<in>set is. i < length xs \<Longrightarrow> \<exists>vs. items xs is = Inr vs"
  by (induction "is") (auto simp: item_def)

lemma patch_loop_ok:
  assumes "length X' = N + 2" and "length Ys = N"
  shows "(\<forall>i\<in>set (butlast (a # is)). i < N) \<Longrightarrow> (\<forall>i\<in>set (a # is). i \<le> N) \<Longrightarrow>
         \<exists>ps. patch_loop X' Ys th (a # is) = Inr ps"
proof (induction "is" arbitrary: a)
  case Nil
  then show ?case by simp
next
  case (Cons e rest)
  from Cons.prems have a: "a < N" and e: "e \<le> N" by simp_all
  from Cons.prems have "\<forall>i\<in>set (butlast (e # rest)). i < N" "\<forall>i\<in>set (e # rest). i \<le> N"
    by simp_all
  from Cons.IH [OF this] obtain pxs pys where
    rec: "patch_loop X' Ys th (e # rest) = Inr (pxs, pys)" by fastforce
  from a e have "(a + e) div 2 < N" by simp
  with assms(2) have mid: "item Ys ((a + e) div 2) = Inr (Ys ! ((a + e) div 2))"
    by (simp add: item_def)
  from e assms(1) have "\<forall>i\<in>set (rev [Suc a..<Suc e]). i < length X'" by auto
  from items_ok [OF this] obtain bottom where
    bottom: "items X' (rev [Suc a..<Suc e]) = Inr bottom" by blast
  from e assms(1) have "\<forall>i\<in>set [a..<e]. i < length X'" by auto
  from items_ok [OF this] obtain top_x where top_x: "items X' [a..<e] = Inr top_x" by blast
  from e assms(2) have "\<forall>i\<in>set [a..<e]. i < length Ys" by auto
  from items_ok [OF this] obtain top_y where top_y: "items Ys [a..<e] = Inr top_y" by blast
  show ?case
    by (cases "th \<le> Ys ! ((a + e) div 2)") (simp_all add: mid bottom top_x top_y rec del: upt_Suc)
qed

lemma find_patches_ok:
  assumes "Xs \<noteq> []" and "length Ys = length Xs"
  shows "\<exists>ps. find_patches Xs Ys th = Inr ps"
proof -
  from assms(1) obtain x0 rest where Xs: "Xs = x0 # rest" by (cases Xs) auto
  let ?N = "length Xs"
  let ?diff = "boundary_markers Ys th"
  let ?mid = "filter (\<lambda>i. ?diff ! i \<noteq> 0) [0..<length ?diff]"
  have N: "0 < ?N" using assms(1) by simp
  have mid: "\<forall>i\<in>set ?mid. i < ?N"
    using assms(2) N by (auto simp: boundary_markers_length)
  have 1: "\<forall>i\<in>set (butlast (0 # ?mid @ [?N])). i < ?N"
    using mid N by (simp add: butlast_append)
  have 2: "\<forall>i\<in>set (0 # ?mid @ [?N]). i \<le> ?N"
    using mid by auto
  have "length (x0 # Xs @ [last Xs]) = ?N + 2" by simp
  from patch_loop_ok [OF this assms(2) 1 2]
  obtain ps where "patch_loop (x0 # Xs @ [last Xs]) Ys th (0 # ?mid @ [?N]) = Inr ps" by blast
  then show ?thesis by (simp add: find_patches_def Let_def Xs)
qed

lemma find_patches_empty: "find_patches [] Ys th = Inl IndexError"
  by (simp add: find_patches_def Let_def)

lemma arange_empty_iff:
  assumes "step \<noteq> 0"
  shows "arange start stop step = Inr (map (\<lambda>i. start + real i * step) [0..<nat \<lceil>(stop - start) / step\<rceil>])"
    and "(map (\<lambda>i. start + real i * step) [0..<nat \<lceil>(stop - start) / step\<rceil>] = []) =
           ((stop - start) / step \<le> 0)"
proof -
  show "arange start stop step = Inr (map (\<lambda>i. start + real i * step) [0..<nat \<lceil>(stop - start) / step\<rceil>])"
    using assms by (simp add: arange_def)
  have "(nat \<lceil>(stop - start) / step\<rceil> = 0) = (\<lceil>(stop - start) / step\<rceil> \<le> 0)" by simp
  also have "\<dots> = ((stop - start) / step \<le> 0)" by (simp add: ceiling_le_iff)
  finally show "(map (\<lambda>i. start + real i * step) [0..<nat \<lceil>(stop - start) / step\<rceil>] = []) =
           ((stop - start) / step \<le> 0)" by simp
qed

text \<open>What a successful construction leaves in the sampler.\<close>


lemma init_with_fields:
  assumes "init_with f x_low x_high x_step = Inr s"
  shows "mode s = -1" "num_modes s = 5" "update_fn s = Stepout" "slice s = (-1, -1)"
    "curr_x s = -1" "fx s = -1" "curr_y s = -1" "horizontal s = -1"
    "X s \<noteq> []" "Y s = map f (X s)" "arange x_low x_high x_step = Inr (X s)"
proof -
  from assms obtain Xs pxs pys where
    ar: "arange x_low x_high x_step = Inr Xs" and
    fp: "find_patches Xs (map f Xs) 0 = Inr (pxs, pys)" and
    s: "s = \<lparr> mode = -1, num_modes = 5, update_fn = Stepout, X = Xs, Y = map f Xs,
              patch_xs = pxs, patch_ys = pys, slice = (-1, -1), curr_x = -1,
              fx = -1, curr_y = -1, horizontal = -1 \<rparr>"
    by (auto simp: init_with_def Let_def split: sum.splits)
  from fp have "Xs \<noteq> []" using find_patches_empty by auto
  with ar s show "mode s = -1" "num_modes s = 5" "update_fn s = Stepout" "slice s = (-1, -1)"
    "curr_x s = -1" "fx s = -1" "curr_y s = -1" "horizontal s = -1"
    "X s \<noteq> []" "Y s = map f (X s)" "arange x_low x_high x_step = Inr (X s)"
    by simp_all
qed

text \<open>
  C5. Construction has no check of its parameters. It fails exactly when the step is
  zero (inside \<open>arange\<close>) or the grid \<open>arange x_low x_high x_step\<close> is empty (the
  \<open>IndexError\<close> of region extraction), that is when \<open>(x_high - x_low) / x_step \<le> 0\<close>;
  otherwise it produces a sampler.
\<close>

theorem init_with_fails_iff:
  "(\<exists>e. init_with f x_low x_high x_step = Inl e) =
     (x_step = 0 \<or> (x_high - x_low) / x_step \<le> 0)"
proof (cases "x_step = 0")
  case True
  then show ?thesis by (simp add: init_with_def arange_def)
next
  case False
  let ?Xs = "map (\<lambda>i. x_low + real i * x_step) [0..<nat \<lceil>(x_high - x_low) / x_step\<rceil>]"
  note ar = arange_empty_iff [OF False, of x_low x_high]
  show ?thesis
  proof (cases "?Xs = []")
    case True
    with ar have "(x_high - x_low) / x_step \<le> 0" by simp
    moreover from True ar(1) have "init_with f x_low x_high x_step = Inl IndexError"
      by (simp add: init_with_def find_patches_empty)
    ultimately show ?thesis by simp
  next
    case ne: False
    with ar have pos: "\<not> (x_high - x_low) / x_step \<le> 0" by simp
    from find_patches_ok [OF ne, of "map f ?Xs" 0] obtain pxs pys where
      "find_patches ?Xs (map f ?Xs) 0 = Inr (pxs, pys)" by fastforce
    with ar(1) have "\<exists>s. init_with f x_low x_high x_step = Inr s"
      by (simp add: init_with_def Let_def)
    with pos False show ?thesis by auto
  qed
qed

theorem init_with_inverted_domain_counterexample:
  "(1::real) \<ge> 0 \<and> (-1::real) \<le> 0 \<and>
   init_with (\<lambda>x. 1) 1 0 (-1) =
     Inr \<lparr> mode = -1, num_modes = 5, update_fn = Stepout, X = [1], Y = [1],
           patch_xs = [[1, 1]], patch_ys = [[0, 1]], slice = (-1, -1), curr_x = -1,
           fx = -1, curr_y = -1, horizontal = -1 \<rparr>"
proof -
  have grid: "arange 1 0 (-1) = Inr [1]"
    by (simp add: arange_def)
  have markers: "boundary_markers [1] 0 = []"
    by (simp add: boundary_markers_def collapse_def collapse_loop.simps)
  have patches: "find_patches [1] [1] 0 = Inr ([[1, 1]], [[0, 1]])"
    by (simp add: find_patches_def markers item_def Let_def)
  show ?thesis
    by (simp add: init_with_def grid patches Let_def)
qed

section \<open>The first step and the choice of strategy\<close>


lemma norm_pdf_pos: "0 < scale \<Longrightarrow> 0 < norm_pdf x loc scale"
  by (simp add: norm_pdf_def)

lemma density_pos: "0 < density x"
proof -
  have "0 < norm_pdf x (-3) 1.75" "0 < norm_pdf x 0.75 0.5" "0 < norm_pdf x 3 1"
    by (simp_all add: norm_pdf_pos)
  then show ?thesis unfolding density_def by (simp add: add_pos_pos)
qed

lemma reject_loop_keeps_sentinel_draw:
  assumes "reject_loop g s n = Some res"
  shows "slice s = (-1, -1) \<and> curr_x s = -1 \<longrightarrow>
           (case res of Inl e \<Rightarrow> True | Inr (s', n') \<Rightarrow> curr_x s' = -1)"
proof (rule reject_loop.raw_induct [where P = "\<lambda>g s n res.
          slice s = (-1, -1) \<and> curr_x s = -1 \<longrightarrow>
           (case res of Inl e \<Rightarrow> True | Inr (s', n') \<Rightarrow> curr_x s' = -1)", OF _ assms],
       goal_cases)
  case (1 reject_loop' g s n res)
  show ?case
  proof
    assume a: "slice s = (-1, -1) \<and> curr_x s = -1"
    show "case res of Inl e \<Rightarrow> True | Inr (s', n') \<Rightarrow> curr_x s' = -1"
    proof (cases "fx_of (X s) (Y s) (curr_x s)")
      case (Inl e)
      with 1(2) show ?thesis by auto
    next
      case (Inr v)
      show ?thesis
      proof (cases "curr_y s > v")
        case True
        from a have sx: "sample_x g s n = (-1, Suc n)" by (simp add: sample_x_def uniform_def)
        with 1(2) Inr True have "reject_loop' g (s\<lparr>curr_x := -1\<rparr>) (Suc n) = Some res" by simp
        from 1(1) [OF this] a show ?thesis by simp
      next
        case False
        with 1(2) Inr have "res = Inr (s, n)" by simp
        with a show ?thesis by simp
      qed
    qed
  qed
qed

text \<open>
  C4. A freshly constructed sampler holds the sentinel slice \<open>(-1, -1)\<close>, not the domain.
  On the first \<open>next_step\<close> the candidate is drawn from that pair, so it is \<open>-1\<close> whatever
  the random draw, and whenever the call returns, \<open>curr_x = -1\<close>.
\<close>

theorem first_draw_uses_sentinel_slice:
  assumes "init_with f x_low x_high x_step = Inr s"
  shows "slice s = (-1, -1) \<and>
         sample_x g (s\<lparr>mode := (mode s + 1) mod num_modes s\<rparr>) n = (-1, Suc n) \<and>
         (next_step g s n = Some (Inr (s', n')) \<longrightarrow> curr_x s' = -1)"
proof -
  note fl = init_with_fields [OF assms]
  let ?s = "s\<lparr>mode := 0\<rparr>"
  have m: "(mode s + 1) mod num_modes s = 0" using fl(1,2) by simp
  have sx: "sample_x g ?s n = (-1, Suc n)" using fl(4) by (simp add: sample_x_def uniform_def)
  have "curr_x s' = -1" if ns: "next_step g s n = Some (Inr (s', n'))"
  proof -
    from ns m sx obtain s'' where
      rl: "reject_loop g (?s\<lparr>curr_x := -1\<rparr>) (Suc n) = Some (Inr (s'', n'))" and
      s': "s' = s''\<lparr>horizontal := -1, fx := -1, curr_y := -1\<rparr>"
      by (auto simp: next_step_def Let_def split: option.splits sum.splits)
    from reject_loop_keeps_sentinel_draw [OF rl] fl(4) have "curr_x s'' = -1" by simp
    with s' show ?thesis by simp
  qed
  with fl(4) sx m show ?thesis by simp
qed

text \<open>
  C9. On the first \<open>next_step\<close> of a freshly constructed sampler whose tabulated function
  is nowhere negative, the rejection loop returns at once, leaving the candidate and the
  random stream as they are: the call takes exactly one draw and accepts it.
\<close>

theorem first_step_accepts_first_draw:
  assumes "init_with f x_low x_high x_step = Inr s" and "\<forall>x. 0 \<le> f x"
  shows "reject_loop g (s\<lparr>mode := 0, curr_x := -1\<rparr>) (Suc n) =
           Some (Inr (s\<lparr>mode := 0, curr_x := -1\<rparr>, Suc n)) \<and>
         next_step g s n =
           Some (Inr (s\<lparr>mode := 0, curr_x := -1, horizontal := -1, fx := -1, curr_y := -1\<rparr>,
                      Suc n))"
proof -
  note fl = init_with_fields [OF assms(1)]
  let ?s = "s\<lparr>mode := 0, curr_x := -1\<rparr>"
  have len: "length (Y s) = length (X s)" using fl(10) by simp
  from fx_of_total [OF fl(9) len, of "-1"] obtain v where v: "fx_of (X s) (Y s) (-1) = Inr v"
    by blast
  from fx_of_in_set [OF v] fl(10) assms(2) have "0 \<le> v" by auto
  with fl(7) have nrej: "\<not> curr_y ?s > v" by simp
  have rl: "reject_loop g ?s (Suc n) = Some (Inr (?s, Suc n))"
    using v nrej by (subst reject_loop.simps) simp
  have m: "(mode s + 1) mod num_modes s = 0" using fl(1,2) by simp
  have sx: "sample_x g (s\<lparr>mode := 0\<rparr>) n = (-1, Suc n)"
    using fl(4) by (simp add: sample_x_def uniform_def)
  have "next_step g s n =
           Some (Inr (s\<lparr>mode := 0, curr_x := -1, horizontal := -1, fx := -1, curr_y := -1\<rparr>,
                      Suc n))"
    using m sx rl by (simp add: next_step_def Let_def)
  with rl show ?thesis by simp
qed

text \<open>
  C6. \<open>change_update_fn\<close> selects \<open>Stepout\<close> for 0 and \<open>Double\<close> for 1 and changes nothing
  else; for any other integer it raises a \<open>RuntimeError\<close> and leaves the sampler as it
  was.
\<close>

theorem change_update_fn_cases:
  "change_update_fn 0 s = (Inr (), s\<lparr>update_fn := Stepout\<rparr>) \<and>
   change_update_fn 1 s = (Inr (), s\<lparr>update_fn := Double\<rparr>) \<and>
   (fn \<noteq> 0 \<and> fn \<noteq> 1 \<longrightarrow>
      change_update_fn fn s =
        (Inl (RuntimeError (str_int fn @ '' not an update function'')), s))"
  by (simp add: change_update_fn_def)

theorem change_update_fn_cases_witness:
  "(2::int) \<noteq> 0 \<and> (2::int) \<noteq> 1 \<and>
   change_update_fn 2
     \<lparr> mode = 3, num_modes = 5, update_fn = Double, X = [0], Y = [1], patch_xs = [[0, 0]],
       patch_ys = [[0, 1]], slice = (-1, -1), curr_x = 0, fx = 1, curr_y = 1/2,
       horizontal = 1/2 \<rparr> =
     (Inl (RuntimeError ''2 not an update function''),
      \<lparr> mode = 3, num_modes = 5, update_fn = Double, X = [0], Y = [1], patch_xs = [[0, 0]],
        patch_ys = [[0, 1]], slice = (-1, -1), curr_x = 0, fx = 1, curr_y = 1/2,
        horizontal = 1/2 \<rparr>)"
  using change_update_fn_cases [of "\<lparr> mode = 3, num_modes = 5, update_fn = Double, X = [0],
       Y = [1], patch_xs = [[0, 0]], patch_ys = [[0, 1]], slice = (-1, -1), curr_x = 0,
       fx = 1, curr_y = 1/2, horizontal = 1/2 \<rparr>" 2]
  by (simp add: str_int_def str_nat.simps)

section \<open>A small instance\<close>


text \<open>A small instance of the program: \<open>Elliptical 0 2 1\<close>, with the grid \<open>[0, 1]\<close>.\<close>

lemma Elliptical_0_2_1:
  "Elliptical 0 2 1 =
     Inr \<lparr> mode = -1, num_modes = 5, update_fn = Stepout, X = [0, 1],
           Y = [density 0, density 1], patch_xs = [[1, 0, 0, 0]],
           patch_ys = [[0, 0, density 0, density 1]], slice = (-1, -1), curr_x = -1,
           fx = -1, curr_y = -1, horizontal = -1 \<rparr>"
proof -
  have grid: "arange 0 2 1 = Inr [0, 1]"
    by (simp add: arange_def numeral_2_eq_2)
  have sg: "sgn (density x) = 1" for x using density_pos [of x] by simp
  have markers: "boundary_markers [density 0, density 1] 0 = [0]"
    by (simp add: boundary_markers_def collapse_def collapse_loop.simps sg)
  have ge: "0 \<le> density x" for x using density_pos [of x] by simp
  have patches: "find_patches [0, 1] [density 0, density 1] 0 =
      Inr ([[1, 0, 0, 0]], [[0, 0, density 0, density 1]])"
    by (simp add: find_patches_def markers item_def Let_def ge)
  show ?thesis
    by (simp add: Elliptical_def init_with_def grid patches Let_def)
qed

lemma first_step_0_2_1:
  "next_step (\<lambda>_. 1/2)
     \<lparr> mode = -1, num_modes = 5, update_fn = Stepout, X = [0, 1],
       Y = [density 0, density 1], patch_xs = [[1, 0, 0, 0]],
       patch_ys = [[0, 0, density 0, density 1]], slice = (-1, -1), curr_x = -1,
       fx = -1, curr_y = -1, horizontal = -1 \<rparr> 0 =
   Some (Inr (\<lparr> mode = 0, num_modes = 5, update_fn = Stepout, X = [0, 1],
       Y = [density 0, density 1], patch_xs = [[1, 0, 0, 0]],
       patch_ys = [[0, 0, density 0, density 1]], slice = (-1, -1), curr_x = -1,
       fx = -1, curr_y = -1, horizontal = -1 \<rparr>, 1))"
proof -
  have look: "fx_of [0, 1] [density 0, density 1] (-1) = Inr (density 0)"
    by (simp add: fx_of_def argmin_def item_def)
  have acc: "\<not> - 1 > density 0" using density_pos [of 0] by simp
  have "reject_loop (\<lambda>_. 1/2) \<lparr> mode = 0, num_modes = 5, update_fn = Stepout, X = [0, 1],
       Y = [density 0, density 1], patch_xs = [[1, 0, 0, 0]],
       patch_ys = [[0, 0, density 0, density 1]], slice = (-1, -1), curr_x = -1,
       fx = -1, curr_y = -1, horizontal = -1 \<rparr> 1 =
     Some (Inr (\<lparr> mode = 0, num_modes = 5, update_fn = Stepout, X = [0, 1],
       Y = [density 0, density 1], patch_xs = [[1, 0, 0, 0]],
       patch_ys = [[0, 0, density 0, density 1]], slice = (-1, -1), curr_x = -1,
       fx = -1, curr_y = -1, horizontal = -1 \<rparr>, 1))"
    by (subst reject_loop.simps) (simp add: look acc)
  then show ?thesis
    by (simp add: next_step_def sample_x_def uniform_def Let_def)
qed

theorem first_draw_uses_sentinel_slice_witness:
  "Elliptical 0 2 1 =
     Inr \<lparr> mode = -1, num_modes = 5, update_fn = Stepout, X = [0, 1],
           Y = [density 0, density 1], patch_xs = [[1, 0, 0, 0]],
           patch_ys = [[0, 0, density 0, density 1]], slice = (-1, -1), curr_x = -1,
           fx = -1, curr_y = -1, horizontal = -1 \<rparr> \<and>
   next_step (\<lambda>_. 1/2)
     \<lparr> mode = -1, num_modes = 5, update_fn = Stepout, X = [0, 1],
       Y = [density 0, density 1], patch_xs = [[1, 0, 0, 0]],
       patch_ys = [[0, 0, density 0, density 1]], slice = (-1, -1), curr_x = -1,
       fx = -1, curr_y = -1, horizontal = -1 \<rparr> 0 =
   Some (Inr (\<lparr> mode = 0, num_modes = 5, update_fn = Stepout, X = [0, 1],
       Y = [density 0, density 1], patch_xs = [[1, 0, 0, 0]],
       patch_ys = [[0, 0, density 0, density 1]], slice = (-1, -1), curr_x = -1,
       fx = -1, curr_y = -1, horizontal = -1 \<rparr>, 1)) \<and>
   curr_x \<lparr> mode = 0, num_modes = 5, update_fn = Stepout, X = [0, 1],
       Y = [density 0, density 1], patch_xs = [[1, 0, 0, 0]],
       patch_ys = [[0, 0, density 0, density 1]], slice = (-1, -1), curr_x = -1,
       fx = -1, curr_y = -1, horizontal = -1 \<rparr> = -1"
proof -
  have init: "init_with density 0 2 1 =
     Inr \<lparr> mode = -1, num_modes = 5, update_fn = Stepout, X = [0, 1],
           Y = [density 0, density 1], patch_xs = [[1, 0, 0, 0]],
           patch_ys = [[0, 0, density 0, density 1]], slice = (-1, -1), curr_x = -1,
           fx = -1, curr_y = -1, horizontal = -1 \<rparr>"
    using Elliptical_0_2_1 by (simp add: Elliptical_def)
  from first_draw_uses_sentinel_slice [OF init, of "\<lambda>_. 1/2" 0 _ 1] first_step_0_2_1
    Elliptical_0_2_1
  show ?thesis by simp
qed

theorem first_draw_not_from_domain_counterexample:
  "Elliptical 0 2 1 =
     Inr \<lparr> mode = -1, num_modes = 5, update_fn = Stepout, X = [0, 1],
           Y = [density 0, density 1], patch_xs = [[1, 0, 0, 0]],
           patch_ys = [[0, 0, density 0, density 1]], slice = (-1, -1), curr_x = -1,
           fx = -1, curr_y = -1, horizontal = -1 \<rparr> \<and>
   next_step (\<lambda>_. 1/2)
     \<lparr> mode = -1, num_modes = 5, update_fn = Stepout, X = [0, 1],
       Y = [density 0, density 1], patch_xs = [[1, 0, 0, 0]],
       patch_ys = [[0, 0, density 0, density 1]], slice = (-1, -1), curr_x = -1,
       fx = -1, curr_y = -1, horizontal = -1 \<rparr> 0 =
   Some (Inr (\<lparr> mode = 0, num_modes = 5, update_fn = Stepout, X = [0, 1],
       Y = [density 0, density 1], patch_xs = [[1, 0, 0, 0]],
       patch_ys = [[0, 0, density 0, density 1]], slice = (-1, -1), curr_x = -1,
       fx = -1, curr_y = -1, horizontal = -1 \<rparr>, 1)) \<and>
   \<not> ((0::real) \<le> -1 \<and> (-1::real) \<le> 2) \<and>
   fst (uniform (\<lambda>_. 1/2) 0 0 2) = 1 \<and> (1::real) \<noteq> -1"
  using Elliptical_0_2_1 first_step_0_2_1 by (simp add: uniform_def)

theorem first_step_accepts_first_draw_witness:
  "init_with density 0 2 1 =
     Inr \<lparr> mode = -1, num_modes = 5, update_fn = Stepout, X = [0, 1],
           Y = [density 0, density 1], patch_xs = [[1, 0, 0, 0]],
           patch_ys = [[0, 0, density 0, density 1]], slice = (-1, -1), curr_x = -1,
           fx = -1, curr_y = -1, horizontal = -1 \<rparr> \<and>
   (\<forall>x. 0 \<le> density x) \<and>
   next_step (\<lambda>_. 1/2)
     \<lparr> mode = -1, num_modes = 5, update_fn = Stepout, X = [0, 1],
       Y = [density 0, density 1], patch_xs = [[1, 0, 0, 0]],
       patch_ys = [[0, 0, density 0, density 1]], slice = (-1, -1), curr_x = -1,
       fx = -1, curr_y = -1, horizontal = -1 \<rparr> 0 =
   Some (Inr (\<lparr> mode = 0, num_modes = 5, update_fn = Stepout, X = [0, 1],
       Y = [density 0, density 1], patch_xs = [[1, 0, 0, 0]],
       patch_ys = [[0, 0, density 0, density 1]], slice = (-1, -1), curr_x = -1,
       fx = -1, curr_y = -1, horizontal = -1 \<rparr>, Suc 0))"
proof -
  have init: "init_with density 0 2 1 =
     Inr \<lparr> mode = -1, num_modes = 5, update_fn = Stepout, X = [0, 1],
           Y = [density 0, density 1], patch_xs = [[1, 0, 0, 0]],
           patch_ys = [[0, 0, density 0, density 1]], slice = (-1, -1), curr_x = -1,
           fx = -1, curr_y = -1, horizontal = -1 \<rparr>"
    using Elliptical_0_2_1 by (simp add: Elliptical_def)
  have nonneg: "\<forall>x. 0 \<le> density x"
  proof
    fix x show "0 \<le> density x" using density_pos [of x] by simp
  qed
  from first_step_accepts_first_draw [OF init nonneg, of "\<lambda>_. 1/2" 0] init nonneg
  show ?thesis by simp
qed

section \<open>The doubling loop on the tabulated density\<close>


text \<open>
  On any sampler the program constructs, a doubling search at height \<open>y = 0\<close> never
  returns: the tabulated density is positive at every grid point.
\<close>

lemma double_never_returns_at_zero:
  assumes "Elliptical x_low x_high x_step = Inr s" and "0 < p"
  shows "double (X s) (Y s) g n x 0 w p = None"
proof -
  from assms(1) have init: "init_with density x_low x_high x_step = Inr s"
    by (simp add: Elliptical_def)
  note fl = init_with_fields [OF init]
  have len: "length (Y s) = length (X s)" using fl(10) by simp
  have above: "\<forall>v\<in>set (Y s). 0 < v" using fl(10) density_pos by auto
  from double_loop_diverges [OF assms(2) fl(9) len above]
  show ?thesis by (simp add: double_def uniform_def Let_def)
qed

end
